theory Spec2Isabelle
  imports Complex_Main
begin

section \<open>Values of the numerical library\<close>

text \<open>
  The program computes with NumPy double-precision numbers. They are modelled as exact
  reals extended with the three special values of IEEE arithmetic: a finite value is
  \<open>Fin r\<close>, and \<open>PInf\<close>, \<open>MInf\<close>, \<open>NaN\<close> are the two infinities and
  not-a-number. Rounding and overflow are not modelled; the special values are, because
  the source relies on NumPy returning them (with a warning) where plain Python would
  raise.
\<close>

datatype npfloat = Fin real | PInf | MInf | NaN

fun fneg :: "npfloat \<Rightarrow> npfloat" where
  "fneg (Fin a) = Fin (- a)"
| "fneg PInf = MInf"
| "fneg MInf = PInf"
| "fneg NaN = NaN"

fun fadd :: "npfloat \<Rightarrow> npfloat \<Rightarrow> npfloat" where
  "fadd (Fin a) (Fin b) = Fin (a + b)"
| "fadd NaN _ = NaN"
| "fadd _ NaN = NaN"
| "fadd PInf MInf = NaN"
| "fadd MInf PInf = NaN"
| "fadd PInf _ = PInf"
| "fadd _ PInf = PInf"
| "fadd MInf _ = MInf"
| "fadd _ MInf = MInf"

definition fsub :: "npfloat \<Rightarrow> npfloat \<Rightarrow> npfloat" where
  "fsub x y = fadd x (fneg y)"

fun fmul :: "npfloat \<Rightarrow> npfloat \<Rightarrow> npfloat" where
  "fmul (Fin a) (Fin b) = Fin (a * b)"
| "fmul NaN _ = NaN"
| "fmul _ NaN = NaN"
| "fmul (Fin a) PInf = (if 0 < a then PInf else if a < 0 then MInf else NaN)"
| "fmul (Fin a) MInf = (if 0 < a then MInf else if a < 0 then PInf else NaN)"
| "fmul PInf (Fin b) = (if 0 < b then PInf else if b < 0 then MInf else NaN)"
| "fmul MInf (Fin b) = (if 0 < b then MInf else if b < 0 then PInf else NaN)"
| "fmul PInf PInf = PInf"
| "fmul PInf MInf = MInf"
| "fmul MInf PInf = MInf"
| "fmul MInf MInf = PInf"

text \<open>Division; the divisor zero is the positive zero, as a count converted to a float is.\<close>

fun fdiv :: "npfloat \<Rightarrow> npfloat \<Rightarrow> npfloat" where
  "fdiv (Fin a) (Fin b) =
     (if b = 0 then (if a = 0 then NaN else if 0 < a then PInf else MInf) else Fin (a / b))"
| "fdiv NaN _ = NaN"
| "fdiv _ NaN = NaN"
| "fdiv (Fin a) PInf = Fin 0"
| "fdiv (Fin a) MInf = Fin 0"
| "fdiv PInf (Fin b) = (if b < 0 then MInf else PInf)"
| "fdiv MInf (Fin b) = (if b < 0 then PInf else MInf)"
| "fdiv PInf PInf = NaN"
| "fdiv PInf MInf = NaN"
| "fdiv MInf PInf = NaN"
| "fdiv MInf MInf = NaN"

text \<open>The comparison \<open><\<close>: false whenever an operand is \<open>NaN\<close>.\<close>

fun fless :: "npfloat \<Rightarrow> npfloat \<Rightarrow> bool" where
  "fless (Fin a) (Fin b) = (a < b)"
| "fless NaN _ = False"
| "fless _ NaN = False"
| "fless MInf MInf = False"
| "fless MInf _ = True"
| "fless PInf _ = False"
| "fless _ PInf = True"
| "fless _ MInf = False"

text \<open>\<open>np.log\<close>: minus infinity at zero, \<open>NaN\<close> on a negative argument, no exception.\<close>

fun np_log :: "npfloat \<Rightarrow> npfloat" where
  "np_log (Fin a) = (if 0 < a then Fin (ln a) else if a = 0 then MInf else NaN)"
| "np_log PInf = PInf"
| "np_log MInf = NaN"
| "np_log NaN = NaN"

fun fsum :: "npfloat list \<Rightarrow> npfloat" where
  "fsum [] = Fin 0"
| "fsum (x # xs) = fadd x (fsum xs)"

text \<open>
  \<open>np.mean\<close>: the sum divided by the number of elements. On an empty sequence this is
  \<open>0 / 0\<close>, and NumPy returns \<open>NaN\<close> with a RuntimeWarning rather than raising.
\<close>

definition np_mean :: "npfloat list \<Rightarrow> npfloat" where
  "np_mean xs = fdiv (fsum xs) (Fin (real (length xs)))"

section \<open>Python sequences\<close>

datatype error = ValueError | IndexError | ConversionError

text \<open>The slice \<open>xs[i:]\<close>; a negative \<open>i\<close> counts from the end, and both ends are clamped.\<close>

definition py_slice_from :: "int \<Rightarrow> 'a list \<Rightarrow> 'a list" where
  "py_slice_from i xs =
     (if i < 0 then drop (nat (int (length xs) + i)) xs else drop (nat i) xs)"

text \<open>The slice \<open>xs[:i]\<close>.\<close>

definition py_slice_to :: "int \<Rightarrow> 'a list \<Rightarrow> 'a list" where
  "py_slice_to i xs =
     (if i < 0 then take (nat (int (length xs) + i)) xs else take (nat i) xs)"

text \<open>
  The built-in \<open>min\<close> keeps the first element and replaces it by a later one only when
  that one compares strictly smaller; on an empty list it raises ValueError.
\<close>

fun py_min_from :: "npfloat \<Rightarrow> npfloat list \<Rightarrow> npfloat" where
  "py_min_from m [] = m"
| "py_min_from m (x # xs) = py_min_from (if fless x m then x else m) xs"

definition py_min :: "npfloat list \<Rightarrow> error + npfloat" where
  "py_min xs = (case xs of [] \<Rightarrow> Inl ValueError | x # rest \<Rightarrow> Inr (py_min_from x rest))"

text \<open>\<open>list.index\<close>: the first position holding the value, ValueError when there is none.\<close>

fun py_index :: "'a list \<Rightarrow> 'a \<Rightarrow> error + nat" where
  "py_index [] v = Inl ValueError"
| "py_index (x # xs) v =
     (if x = v then Inr 0
      else (case py_index xs v of Inl e \<Rightarrow> Inl e | Inr i \<Rightarrow> Inr (Suc i)))"

text \<open>
  \<open>pd.Series(data, index=...)\<close> pairs the values with their keys and raises ValueError
  when the two lengths differ.
\<close>

definition pd_Series :: "'v list \<Rightarrow> 'i list \<Rightarrow> error + ('i \<times> 'v) list" where
  "pd_Series vals idx = (if length vals = length idx then Inr (zip idx vals) else Inl ValueError)"

section \<open>The segment likelihood\<close>

text \<open>
  Observations are the outcomes of a binary random variable, \<open>True\<close> for 1 and
  \<open>False\<close> for 0.
\<close>

definition log_likelihood :: "bool list \<Rightarrow> npfloat" where
  "log_likelihood time_series =
     (let p = np_mean (map (\<lambda>b. Fin (of_bool b)) time_series);
          heads = (\<Sum>b\<leftarrow>time_series. of_bool b) :: int;
          tails = int (length time_series) - heads
      in fadd (fmul (Fin (of_int heads)) (np_log (fadd p (Fin (1 / 10 ^ 20)))))
              (fmul (Fin (of_int tails)) (np_log (fadd (fsub (Fin 1) p) (Fin (1 / 10 ^ 20))))))"

section \<open>The scan\<close>

text \<open>
  A key of the result is a split index when no labels were given and a label otherwise.
\<close>

datatype 'a split_key = Idx nat | Lab 'a

record 't scan_state =
  mdl :: "npfloat list"
  regime_change_date :: "'t split_key option"

text \<open>The raw description length of the split \<open>n\<close>: \<open>neg_log_likelihood + penalty\<close>.\<close>

definition raw_mdl :: "bool list \<Rightarrow> nat \<Rightarrow> npfloat" where
  "raw_mdl time_series n =
     (let neg_log_likelihood =
            fsub (fneg (log_likelihood (take n time_series))) (log_likelihood (drop n time_series));
          penalty = fmul (Fin (1 / 2))
            (fadd (np_log (Fin (real n)))
                  (np_log (Fin (real_of_int (int (length time_series) - int n)))))
      in fadd neg_log_likelihood penalty)"

text \<open>
  Appending the smoothed value. For \<open>n \<noteq> 1\<close> the source reads \<open>mdl[-1]\<close>, which raises
  IndexError on an empty list.
\<close>

definition smooth :: "real \<Rightarrow> nat \<Rightarrow> npfloat \<Rightarrow> npfloat list \<Rightarrow> error + npfloat list" where
  "smooth k n raw m =
     (if n = 1 then Inr (m @ [raw])
      else if m = [] then Inl IndexError
      else Inr (m @ [fadd (fmul (last m) (Fin (1 - k))) (fmul raw (Fin k))]))"

definition detection_window :: "int \<Rightarrow> npfloat list \<Rightarrow> npfloat list" where
  "detection_window stride m = py_slice_from (- (2 * stride)) m"

text \<open>
  The value recorded at a detection: the split index, or \<open>pd.to_datetime\<close> of the label
  at that index. \<open>pd.to_datetime\<close> is the library's conversion, taken as a parameter; it
  raises on a label it cannot read (\<open>None\<close> here).
\<close>

definition change_point_at ::
  "('l \<Rightarrow> 't option) \<Rightarrow> 'l list option \<Rightarrow> nat \<Rightarrow> error + 't split_key" where
  "change_point_at to_datetime time_series_labels n =
     (case time_series_labels of
        None \<Rightarrow> Inr (Idx n)
      | Some ls \<Rightarrow>
          (if n < length ls
           then (case to_datetime (ls ! n) of
                   None \<Rightarrow> Inl ConversionError
                 | Some d \<Rightarrow> Inr (Lab d))
           else Inl IndexError))"

text \<open>One pass through the body of the loop, at the split \<open>n\<close>.\<close>

definition scan_step ::
  "('l \<Rightarrow> 't option) \<Rightarrow> bool list \<Rightarrow> 'l list option \<Rightarrow> int \<Rightarrow> real \<Rightarrow> nat
     \<Rightarrow> 't scan_state \<Rightarrow> error + 't scan_state" where
  "scan_step to_datetime time_series time_series_labels stride k n s =
     (case smooth k n (raw_mdl time_series n) (mdl s) of
        Inl e \<Rightarrow> Inl e
      | Inr m \<Rightarrow>
          (let window = detection_window stride m in
           case py_min window of
             Inl e \<Rightarrow> Inl e
           | Inr lowest \<Rightarrow>
               (case py_index window lowest of
                  Inl e \<Rightarrow> Inl e
                | Inr min_ \<Rightarrow>
                    (if 20 < n \<and> regime_change_date s = None
                        \<and> 0 < min_ \<and> int min_ < 2 * stride
                        \<and> fless (np_mean (take min_ window)) (np_mean (drop min_ window))
                     then (case change_point_at to_datetime time_series_labels n of
                             Inl e \<Rightarrow> Inl e
                           | Inr c \<Rightarrow> Inr \<lparr>mdl = m, regime_change_date = Some c\<rparr>)
                     else Inr \<lparr>mdl = m, regime_change_date = regime_change_date s\<rparr>))))"

text \<open>The loop over the splits, stopping at the first exception.\<close>

fun scan_loop ::
  "('l \<Rightarrow> 't option) \<Rightarrow> bool list \<Rightarrow> 'l list option \<Rightarrow> int \<Rightarrow> real \<Rightarrow> nat list
     \<Rightarrow> 't scan_state \<Rightarrow> error + 't scan_state" where
  "scan_loop to_datetime time_series time_series_labels stride k [] s = Inr s"
| "scan_loop to_datetime time_series time_series_labels stride k (n # ns) s =
     (case scan_step to_datetime time_series time_series_labels stride k n s of
        Inl e \<Rightarrow> Inl e
      | Inr s' \<Rightarrow> scan_loop to_datetime time_series time_series_labels stride k ns s')"

definition initial_state :: "'t scan_state" where
  "initial_state = \<lparr>mdl = [], regime_change_date = None\<rparr>"

text \<open>The state after the splits \<open>1, ..., m\<close> have been processed.\<close>

definition scan_upto ::
  "('l \<Rightarrow> 't option) \<Rightarrow> bool list \<Rightarrow> 'l list option \<Rightarrow> int \<Rightarrow> real \<Rightarrow> nat
     \<Rightarrow> error + 't scan_state" where
  "scan_upto to_datetime time_series time_series_labels stride k m =
     scan_loop to_datetime time_series time_series_labels stride k [1..<Suc m] initial_state"

definition detect_regime_change ::
  "('l \<Rightarrow> 't option) \<Rightarrow> bool list \<Rightarrow> 'l list option \<Rightarrow> int \<Rightarrow> real
     \<Rightarrow> error + (('l split_key \<times> npfloat) list \<times> 't split_key option)" where
  "detect_regime_change to_datetime time_series time_series_labels stride k =
     (case scan_loop to_datetime time_series time_series_labels stride k
             [1..<length time_series] initial_state of
        Inl e \<Rightarrow> Inl e
      | Inr s \<Rightarrow>
          (case (case time_series_labels of
                   None \<Rightarrow> pd_Series (mdl s) (map Idx [1..<length time_series])
                 | Some ls \<Rightarrow> pd_Series (mdl s) (map Lab (drop 1 (py_slice_to (- 1) ls)))) of
             Inl e \<Rightarrow> Inl e
           | Inr series \<Rightarrow> Inr (series, regime_change_date s)))"

section \<open>The description length in exact arithmetic\<close>

text \<open>
  The quantities the scan is meant to compute, written over the reals: the likelihood of a
  segment, the raw description length of a split, its exponential moving average, and the
  shape the detection looks for in the trailing window. The lemmas below show that the
  program computes exactly these on every binary input.
\<close>

text \<open>The number of ones of a segment.\<close>

definition heads_of :: "bool list \<Rightarrow> nat" where
  "heads_of ts = length (filter id ts)"

text \<open>\<open>heads * log (p + 1e-20) + tails * log (1 - p + 1e-20)\<close> with \<open>p = heads / length\<close>.\<close>

definition segment_ll :: "bool list \<Rightarrow> real" where
  "segment_ll ts =
     real (heads_of ts) * ln (real (heads_of ts) / real (length ts) + 1 / 10 ^ 20)
     + real (length ts - heads_of ts) * ln (1 - real (heads_of ts) / real (length ts) + 1 / 10 ^ 20)"

text \<open>\<open>- loglik (left) - loglik (right) + 0.5 * (log n + log (length - n))\<close>.\<close>

definition raw_dl :: "bool list \<Rightarrow> nat \<Rightarrow> real" where
  "raw_dl ts n =
     - segment_ll (take n ts) - segment_ll (drop n ts)
     + 1 / 2 * (ln (real n) + ln (real (length ts - n)))"

text \<open>The smoothed value of the split \<open>n\<close>, seeded with the raw value at \<open>n = 1\<close>.\<close>

fun smoothed_value :: "bool list \<Rightarrow> real \<Rightarrow> nat \<Rightarrow> real" where
  "smoothed_value ts k 0 = 0"
| "smoothed_value ts k (Suc n) =
     (if n = 0 then raw_dl ts 1 else smoothed_value ts k n * (1 - k) + raw_dl ts (Suc n) * k)"

definition smoothed_series :: "bool list \<Rightarrow> real \<Rightarrow> nat \<Rightarrow> real list" where
  "smoothed_series ts k m = map (smoothed_value ts k) [1..<Suc m]"

text \<open>The value a step appends to the smoothed values \<open>rs\<close> computed so far.\<close>

definition smoothed_next :: "bool list \<Rightarrow> real \<Rightarrow> nat \<Rightarrow> real list \<Rightarrow> real" where
  "smoothed_next ts k n rs =
     (if n = 1 then raw_dl ts n else last rs * (1 - k) + raw_dl ts n * k)"

text \<open>The last \<open>m\<close> elements of a list, all of it when it is shorter.\<close>

definition trailing :: "nat \<Rightarrow> 'a list \<Rightarrow> 'a list" where
  "trailing m xs = drop (length xs - m) xs"

text \<open>The first position of the minimum of a window, and the mean of a window.\<close>

definition min_position :: "real list \<Rightarrow> nat" where
  "min_position w = length (takeWhile (\<lambda>x. x \<noteq> Min (set w)) w)"

definition window_mean :: "real list \<Rightarrow> real" where
  "window_mean xs = sum_list xs / real (length xs)"

text \<open>
  The minimum lies strictly inside the window, and the values before it have a smaller mean
  than the values from it onwards.
\<close>

definition interior_dip :: "real list \<Rightarrow> bool" where
  "interior_dip w \<longleftrightarrow>
     0 < min_position w \<and> min_position w < length w - 1
     \<and> window_mean (take (min_position w) w) < window_mean (drop (min_position w) w)"

section \<open>An input with a change\<close>

text \<open>A run of zeros followed by a run of ones.\<close>

definition blocks :: "nat \<Rightarrow> nat \<Rightarrow> bool list" where
  "blocks a b = replicate a False @ replicate b True"

text \<open>The constant \<open>1e-20\<close> of the likelihood.\<close>

definition tiny :: real where
  "tiny = 1 / 10 ^ 20"

section \<open>The likelihood of a non-empty segment is finite\<close>

lemma fsum_map_Fin: "fsum (map Fin rs) = Fin (sum_list rs)"
  by (induction rs) simp_all

lemma np_mean_map_Fin:
  "np_mean (map Fin rs) = (if rs = [] then NaN else Fin (sum_list rs / real (length rs)))"
  by (simp add: np_mean_def fsum_map_Fin)

lemma sum_of_bool_int: "(\<Sum>b\<leftarrow>ts. of_bool b) = int (heads_of ts)"
  by (induction ts) (simp_all add: heads_of_def)

lemma sum_of_bool_real: "(\<Sum>b\<leftarrow>ts. of_bool b) = real (heads_of ts)"
  by (induction ts) (simp_all add: heads_of_def)

lemma heads_of_le: "heads_of ts \<le> length ts"
  by (simp add: heads_of_def)

lemma log_likelihood_empty: "log_likelihood [] = NaN"
  by (simp add: log_likelihood_def np_mean_def)

lemma log_likelihood_nonempty:
  assumes "ts \<noteq> []"
  shows "log_likelihood ts = Fin (segment_ll ts)"
proof -
  let ?h = "real (heads_of ts)" and ?n = "real (length ts)"
  have n: "0 < ?n" using assms by simp
  have h: "?h \<le> ?n" using heads_of_le [of ts] by simp
  have p0: "0 \<le> ?h / ?n" by simp
  have p1: "?h / ?n \<le> 1" using n h by simp
  have m: "np_mean (map (\<lambda>b. Fin (of_bool b)) ts) = Fin (?h / ?n)"
    using np_mean_map_Fin [of "map of_bool ts"] assms
    by (simp add: sum_of_bool_real comp_def)
  have e: "0 < (1 / 10 ^ 20 :: real)" by simp
  have a: "0 < ?h / ?n + 1 / 10 ^ 20" using p0 e by linarith
  have b: "0 < 1 - ?h / ?n + 1 / 10 ^ 20" using p1 e by linarith
  have t: "real_of_int (int (length ts) - int (heads_of ts)) = real (length ts - heads_of ts)"
    using heads_of_le [of ts] by simp
  show ?thesis
    unfolding log_likelihood_def Let_def m sum_of_bool_int fsub_def segment_ll_def
    using a b t by (simp del: of_nat_diff)
qed

section \<open>Minimum and index of a window of finite values\<close>

lemma py_min_from_Fin: "py_min_from (Fin m) (map Fin w) = Fin (fold min w m)"
  by (induction w arbitrary: m) (simp_all add: min_def not_less)

lemma py_min_Fin:
  assumes "w \<noteq> []" shows "py_min (map Fin w) = Inr (Fin (Min (set w)))"
proof (cases w)
  case Nil
  then show ?thesis using assms by simp
next
  case (Cons a list)
  have "Min (set (a # list)) = fold min list a" by (rule Min.set_eq_fold)
  then show ?thesis using Cons by (simp add: py_min_def py_min_from_Fin)
qed

lemma py_index_takeWhile:
  "v \<in> set xs \<Longrightarrow> py_index xs v = Inr (length (takeWhile (\<lambda>x. x \<noteq> v) xs))"
  by (induction xs) auto

lemma py_index_map_Fin:
  "v \<in> set w \<Longrightarrow> py_index (map Fin w) (Fin v) = Inr (length (takeWhile (\<lambda>x. x \<noteq> v) w))"
proof -
  assume "v \<in> set w"
  then have "Fin v \<in> set (map Fin w)" by simp
  then have "py_index (map Fin w) (Fin v) = Inr (length (takeWhile (\<lambda>x. x \<noteq> Fin v) (map Fin w)))"
    by (rule py_index_takeWhile)
  then show ?thesis by (simp add: takeWhile_map comp_def)
qed

lemma min_position_less: "w \<noteq> [] \<Longrightarrow> min_position w < length w"
proof -
  assume "w \<noteq> []"
  then have "Min (set w) \<in> set w" by (simp add: Min_in)
  then have "takeWhile (\<lambda>x. x \<noteq> Min (set w)) w \<noteq> w"
    by (metis (mono_tags, lifting) takeWhile_eq_all_conv)
  then show ?thesis
    unfolding min_position_def
    by (metis le_neq_implies_less length_takeWhile_le takeWhile_eq_take take_all order_refl)
qed

lemma min_position_nth: "w \<noteq> [] \<Longrightarrow> w ! min_position w = Min (set w)"
  using min_position_less [of w] nth_length_takeWhile [of "\<lambda>x. x \<noteq> Min (set w)" w]
  by (auto simp: min_position_def)

lemma before_min_position: "j < min_position w \<Longrightarrow> Min (set w) < w ! j"
proof -
  assume j: "j < min_position w"
  then have "w ! j \<noteq> Min (set w)"
    unfolding min_position_def
    by (metis (mono_tags, lifting) nth_mem set_takeWhileD takeWhile_nth)
  moreover have "j < length w" using j length_takeWhile_le [of "\<lambda>x. x \<noteq> Min (set w)" w]
    by (simp add: min_position_def)
  then have "Min (set w) \<le> w ! j" by simp
  ultimately show ?thesis by simp
qed

lemma sum_list_gt:
  fixes xs :: "real list"
  assumes "xs \<noteq> []" "\<forall>x\<in>set xs. c < x"
  shows "real (length xs) * c < sum_list xs"
  using assms
proof (induction xs)
  case Nil then show ?case by simp
next
  case (Cons x xs)
  show ?case
  proof (cases "xs = []")
    case True with Cons.prems show ?thesis by simp
  next
    case False
    with Cons have "real (length xs) * c < sum_list xs" by simp
    moreover have "c < x" using Cons.prems by simp
    ultimately show ?thesis by (simp add: algebra_simps)
  qed
qed

text \<open>
  In exact arithmetic a minimum at the last position of the window never passes the
  comparison of the means: every value before it is larger.
\<close>

lemma min_at_end_no_dip:
  assumes "w \<noteq> []" "0 < min_position w" "min_position w = length w - 1"
  shows "\<not> window_mean (take (min_position w) w) < window_mean (drop (min_position w) w)"
proof -
  let ?i = "min_position w"
  have il: "?i < length w" using assms(1) by (rule min_position_less)
  have d: "drop ?i w = [Min (set w)]"
    using assms il min_position_nth [of w]
    by (metis Cons_nth_drop_Suc Suc_diff_1 drop_all length_greater_0_conv order_refl)
  have "\<forall>x\<in>set (take ?i w). Min (set w) < x"
    using before_min_position [of _ w] il by (auto simp: in_set_conv_nth)
  moreover have "take ?i w \<noteq> []" using assms(2) il by auto
  ultimately have "real (length (take ?i w)) * Min (set w) < sum_list (take ?i w)"
    by (intro sum_list_gt) auto
  then have "Min (set w) < window_mean (take ?i w)"
    using assms(2) il by (simp add: window_mean_def pos_less_divide_eq mult.commute)
  then show ?thesis by (simp add: d window_mean_def)
qed

section \<open>A step on finite values\<close>

lemma raw_mdl_Fin:
  assumes "1 \<le> n" "n < length ts"
  shows "raw_mdl ts n = Fin (raw_dl ts n)"
proof -
  have a: "take n ts \<noteq> []" and b: "drop n ts \<noteq> []" using assms by auto
  have c: "real_of_int (int (length ts) - int n) = real (length ts - n)"
    using assms by simp
  have d: "0 < real (length ts - n)" "0 < real n" using assms by simp_all
  show ?thesis
    unfolding raw_mdl_def Let_def c log_likelihood_nonempty [OF a] log_likelihood_nonempty [OF b]
    using d by (simp add: fsub_def raw_dl_def del: of_nat_diff)
qed

lemma detection_window_pos:
  "0 < stride \<Longrightarrow> detection_window stride m = trailing (nat (2 * stride)) m"
  by (simp add: detection_window_def py_slice_from_def trailing_def nat_diff_distrib')

lemma trailing_map: "trailing m (map f xs) = map f (trailing m xs)"
  by (simp add: trailing_def drop_map)

lemma trailing_nonempty: "0 < m \<Longrightarrow> xs \<noteq> [] \<Longrightarrow> trailing m xs \<noteq> []"
  by (cases xs) (simp_all add: trailing_def)

lemma length_trailing: "length (trailing m xs) = min m (length xs)"
  by (simp add: trailing_def)

lemma fless_mean:
  "a \<noteq> [] \<Longrightarrow> b \<noteq> [] \<Longrightarrow>
   fless (np_mean (map Fin a)) (np_mean (map Fin b)) = (window_mean a < window_mean b)"
  by (simp add: np_mean_map_Fin window_mean_def)

lemma smooth_Fin:
  assumes "n = 1 \<or> rs \<noteq> []"
  shows "smooth k n (Fin r) (map Fin rs) =
           Inr (map Fin (rs @ [if n = 1 then r else last rs * (1 - k) + r * k]))"
  using assms by (auto simp: smooth_def last_map)

lemma detection_test_Fin:
  assumes w: "w \<noteq> []" and len: "int (length w) \<le> 2 * stride"
  shows "py_min (map Fin w) = Inr (Fin (Min (set w)))"
    and "py_index (map Fin w) (Fin (Min (set w))) = Inr (min_position w)"
    and "(0 < min_position w \<and> int (min_position w) < 2 * stride
          \<and> fless (np_mean (take (min_position w) (map Fin w)))
                  (np_mean (drop (min_position w) (map Fin w))))
         = interior_dip w"
proof -
  show "py_min (map Fin w) = Inr (Fin (Min (set w)))" using w by (rule py_min_Fin)
  have "Min (set w) \<in> set w" using w by (simp add: Min_in)
  then show "py_index (map Fin w) (Fin (Min (set w))) = Inr (min_position w)"
    by (simp add: py_index_map_Fin min_position_def)
  let ?i = "min_position w"
  have il: "?i < length w" using w by (rule min_position_less)
  have i2: "int ?i < 2 * stride" using il len by linarith
  have dr: "drop ?i w \<noteq> []" using il by simp
  show "(0 < ?i \<and> int ?i < 2 * stride
          \<and> fless (np_mean (take ?i (map Fin w))) (np_mean (drop ?i (map Fin w))))
         = interior_dip w"
  proof (cases "0 < ?i")
    case False
    then show ?thesis by (simp add: interior_dip_def)
  next
    case True
    then have tk: "take ?i w \<noteq> []" using il by auto
    have m: "fless (np_mean (take ?i (map Fin w))) (np_mean (drop ?i (map Fin w)))
             = (window_mean (take ?i w) < window_mean (drop ?i w))"
      using fless_mean [OF tk dr] by (simp add: take_map drop_map)
    show ?thesis
    proof (cases "?i = length w - 1")
      case True
      from min_at_end_no_dip [OF w \<open>0 < ?i\<close> True]
      have "\<not> window_mean (take ?i w) < window_mean (drop ?i w)" .
      moreover have "\<not> ?i < length w - 1" using True by simp
      ultimately show ?thesis unfolding m interior_dip_def by blast
    next
      case False
      then have "?i < length w - 1" using il by linarith
      then show ?thesis using True i2 by (simp add: m interior_dip_def)
    qed
  qed
qed

lemma scan_step_Fin:
  assumes m: "mdl s = map Fin rs" and n: "1 \<le> n" "n < length ts"
    and st: "0 < stride" and ne: "n = 1 \<or> rs \<noteq> []"
  shows "scan_step to_dt ts labels stride k n s =
     (if 20 < n \<and> regime_change_date s = None
         \<and> interior_dip (trailing (nat (2 * stride)) (rs @ [smoothed_next ts k n rs]))
      then (case change_point_at to_dt labels n of
              Inl e \<Rightarrow> Inl e
            | Inr c \<Rightarrow> Inr \<lparr>mdl = map Fin (rs @ [smoothed_next ts k n rs]),
                            regime_change_date = Some c\<rparr>)
      else Inr \<lparr>mdl = map Fin (rs @ [smoothed_next ts k n rs]),
                regime_change_date = regime_change_date s\<rparr>)"
proof -
  let ?rs = "rs @ [smoothed_next ts k n rs]"
  let ?w = "trailing (nat (2 * stride)) ?rs"
  have sm: "smooth k n (raw_mdl ts n) (mdl s) = Inr (map Fin ?rs)"
    unfolding m raw_mdl_Fin [OF n] smoothed_next_def using smooth_Fin [OF ne] by simp
  have win: "detection_window stride (map Fin ?rs) = map Fin ?w"
    using st by (simp add: detection_window_pos trailing_map del: map_append)
  have w: "?w \<noteq> []" using st by (intro trailing_nonempty) auto
  have len: "int (length ?w) \<le> 2 * stride" using st by (simp add: length_trailing)
  note t = detection_test_Fin [OF w len]
  show ?thesis
    unfolding scan_step_def sm win Let_def sum.case t(1) t(2)
    using t(3) by (auto split: sum.splits)
qed

section \<open>Invariants of the loop\<close>

lemma length_smoothed_series: "length (smoothed_series ts k m) = m"
  by (simp add: smoothed_series_def)

lemma smoothed_series_Suc:
  "smoothed_series ts k m @ [smoothed_next ts k (Suc m) (smoothed_series ts k m)]
     = smoothed_series ts k (Suc m)"
  by (cases m) (simp_all add: smoothed_series_def smoothed_next_def)

lemma scan_loop_snoc:
  "scan_loop to_dt ts labels stride k (ns @ [n]) s =
     (case scan_loop to_dt ts labels stride k ns s of
        Inl e \<Rightarrow> Inl e
      | Inr s' \<Rightarrow> scan_step to_dt ts labels stride k n s')"
  by (induction ns arbitrary: s) (simp_all split: sum.splits)

lemma scan_upto_0: "scan_upto to_dt ts labels stride k 0 = Inr initial_state"
  by (simp add: scan_upto_def)

lemma scan_upto_Suc:
  "scan_upto to_dt ts labels stride k (Suc m) =
     (case scan_upto to_dt ts labels stride k m of
        Inl e \<Rightarrow> Inl e
      | Inr s \<Rightarrow> scan_step to_dt ts labels stride k (Suc m) s)"
proof -
  have "[1..<Suc (Suc m)] = [1..<Suc m] @ [Suc m]" by simp
  then show ?thesis unfolding scan_upto_def by (simp only: scan_loop_snoc)
qed

lemma scan_loop_upto:
  "scan_loop to_dt ts labels stride k [1..<length ts] initial_state
     = scan_upto to_dt ts labels stride k (length ts - 1)"
  by (cases "length ts") (simp_all add: scan_upto_def)

text \<open>What a step does to the two variables, whenever it returns.\<close>

lemma scan_step_mdl:
  assumes "scan_step to_dt ts labels stride k n s = Inr s'"
    and "mdl s = map Fin rs" "1 \<le> n" "n < length ts"
  shows "mdl s' = map Fin (rs @ [smoothed_next ts k n rs])"
  using assms(1) unfolding scan_step_def assms(2) raw_mdl_Fin [OF assms(3,4)] Let_def
  by (auto simp: smooth_def smoothed_next_def last_map split: sum.splits if_splits)

lemma scan_step_date:
  assumes "scan_step to_dt ts labels stride k n s = Inr s'"
  shows "regime_change_date s' = regime_change_date s
       \<or> (regime_change_date s = None \<and> 20 < n
          \<and> (\<exists>c. change_point_at to_dt labels n = Inr c \<and> regime_change_date s' = Some c))"
  using assms unfolding scan_step_def Let_def
  by (auto split: sum.splits if_splits)

lemma scan_upto_invariant:
  assumes "scan_upto to_dt ts labels stride k m = Inr s" "m \<le> length ts - 1"
  shows "mdl s = map Fin (smoothed_series ts k m)
       \<and> (regime_change_date s = None
          \<or> (\<exists>n c. 20 < n \<and> n \<le> m \<and> change_point_at to_dt labels n = Inr c
                   \<and> regime_change_date s = Some c))"
  using assms
proof (induction m arbitrary: s)
  case 0
  then show ?case by (auto simp: scan_upto_0 initial_state_def smoothed_series_def)
next
  case (Suc m)
  from Suc.prems(1) obtain s0 where
    s0: "scan_upto to_dt ts labels stride k m = Inr s0"
    and st: "scan_step to_dt ts labels stride k (Suc m) s0 = Inr s"
    by (auto simp: scan_upto_Suc split: sum.splits)
  have m: "m \<le> length ts - 1" and n: "1 \<le> Suc m" "Suc m < length ts"
    using Suc.prems(2) by simp_all
  note ih = Suc.IH [OF s0 m]
  have "mdl s = map Fin (smoothed_series ts k (Suc m))"
    using scan_step_mdl [OF st _ n] ih by (simp only: smoothed_series_Suc)
  moreover have "regime_change_date s = None
       \<or> (\<exists>n c. 20 < n \<and> n \<le> Suc m \<and> change_point_at to_dt labels n = Inr c
                \<and> regime_change_date s = Some c)"
    using scan_step_date [OF st] ih by (metis le_Suc_eq order_refl)
  ultimately show ?case by simp
qed

text \<open>With a positive stride the scan raises only where the label lookup does.\<close>

lemma scan_upto_total:
  assumes st: "0 < stride" and m: "m \<le> length ts - 1"
    and ok: "\<And>n. 20 < n \<Longrightarrow> n \<le> m \<Longrightarrow> \<exists>c. change_point_at to_dt labels n = Inr c"
  shows "\<exists>s. scan_upto to_dt ts labels stride k m = Inr s"
  using m ok
proof (induction m)
  case 0
  then show ?case by (simp add: scan_upto_0)
next
  case (Suc m)
  have m: "m \<le> length ts - 1" and n: "1 \<le> Suc m" "Suc m < length ts"
    using Suc.prems(1) by simp_all
  from Suc.IH [OF m] Suc.prems(2) obtain s0 where
    s0: "scan_upto to_dt ts labels stride k m = Inr s0" by auto
  let ?rs = "smoothed_series ts k m"
  have md: "mdl s0 = map Fin ?rs" using scan_upto_invariant [OF s0 m] by simp
  have ne: "Suc m = 1 \<or> ?rs \<noteq> []"
    using length_smoothed_series [of ts k m] by (cases m) auto
  obtain c where c: "20 < Suc m \<Longrightarrow> change_point_at to_dt labels (Suc m) = Inr c"
    using Suc.prems(2) [of "Suc m"] by auto
  show ?case
    unfolding scan_upto_Suc s0 sum.case scan_step_Fin [OF md n st ne]
    using c by auto
qed

section \<open>A scan that detects a change\<close>

text \<open>
  The raw description lengths of the splits 18 to 21 of nineteen zeros and three ones,
  and the four comparisons that decide the detection at the split 21. Every logarithm is
  bounded by the logarithm of a rational, and the last comparison is one between two
  products of rationals.
\<close>

lemma length_blocks: "length (blocks a b) = a + b"
  by (simp add: blocks_def)

lemma heads_of_blocks: "heads_of (blocks a b) = b"
  by (simp add: blocks_def heads_of_def)

lemma take_blocks: "take n (blocks a b) = blocks (min n a) (min (n - a) b)"
  by (simp add: blocks_def min_def)

lemma drop_blocks: "drop n (blocks a b) = blocks (a - n) (b - (n - a))"
  by (simp add: blocks_def)

lemma segment_ll_blocks:
  "segment_ll (blocks a b) =
     real b * ln (real b / real (a + b) + 1 / 10 ^ 20)
     + real a * ln (1 - real b / real (a + b) + 1 / 10 ^ 20)"
  by (simp add: segment_ll_def heads_of_blocks length_blocks del: of_nat_add)

lemma raw_dl_blocks:
  "raw_dl (blocks a b) n =
     - segment_ll (blocks (min n a) (min (n - a) b)) - segment_ll (blocks (a - n) (b - (n - a)))
     + 1 / 2 * (ln (real n) + ln (real (a + b - n)))"
  by (simp add: raw_dl_def take_blocks drop_blocks length_blocks)

lemma raw18: "raw_dl (blocks 19 3) 18 =
   - 18 * ln (1 + tiny) - (3 * ln (3 / 4 + tiny) + ln (1 / 4 + tiny)) + 1 / 2 * (ln 18 + ln 4)"
  unfolding raw_dl_blocks segment_ll_blocks tiny_def [symmetric] by simp

lemma raw19: "raw_dl (blocks 19 3) 19 =
   - 22 * ln (1 + tiny) + 1 / 2 * (ln 19 + ln 3)"
  unfolding raw_dl_blocks segment_ll_blocks tiny_def [symmetric] by simp

lemma raw20: "raw_dl (blocks 19 3) 20 =
   - (ln (1 / 20 + tiny) + 19 * ln (19 / 20 + tiny)) - 2 * ln (1 + tiny) + 1 / 2 * (ln 20 + ln 2)"
  unfolding raw_dl_blocks segment_ll_blocks tiny_def [symmetric] by simp

lemma raw21: "raw_dl (blocks 19 3) 21 =
   - (2 * ln (2 / 21 + tiny) + 19 * ln (19 / 21 + tiny)) - ln (1 + tiny) + 1 / 2 * ln 21"
  unfolding raw_dl_blocks segment_ll_blocks tiny_def [symmetric] by simp

lemma tiny_bounds: "0 < tiny" "tiny \<le> 1 / 1000"
  by (simp_all add: tiny_def)

lemma neg_ln_ge: "0 < (t::real) \<Longrightarrow> 0 < c \<Longrightarrow> t * c \<le> 1 \<Longrightarrow> ln c \<le> - ln t"
proof -
  assume a: "0 < t" "0 < c" "t * c \<le> 1"
  have "0 < t * c" using a by simp
  then have "ln (t * c) \<le> 0" using a(3) by simp
  then show ?thesis using a by (simp add: ln_mult_pos)
qed

lemma neg_ln_le: "0 < (t::real) \<Longrightarrow> 0 < c \<Longrightarrow> 1 \<le> t * c \<Longrightarrow> - ln t \<le> ln c"
proof -
  assume a: "0 < t" "0 < c" "1 \<le> t * c"
  have "0 < t * c" using a by simp
  then have "0 \<le> ln (t * c)" using a(3) by simp
  then show ?thesis using a by (simp add: ln_mult_pos)
qed

lemma ln_one_plus_tiny: "0 < ln (1 + tiny)" "ln (1 + tiny) \<le> ln (1001 / 1000)"
  using tiny_bounds by simp_all

lemma ln_below_one: "0 < (t::real) \<Longrightarrow> t \<le> 1 \<Longrightarrow> ln t \<le> 0"
  by simp

lemma ln_bounds_3_4: "- ln (3 / 4 + tiny) \<le> ln (4 / 3)" "ln (3 / 4 + tiny) \<le> 0"
  using tiny_bounds by (intro neg_ln_le ln_below_one; simp add: algebra_simps)+

lemma ln_bounds_1_4: "- ln (1 / 4 + tiny) \<le> ln 4" "ln 3 \<le> - ln (1 / 4 + tiny)"
  using tiny_bounds by (intro neg_ln_le neg_ln_ge; simp add: algebra_simps)+

lemma ln_bound_1_20: "ln 19 \<le> - ln (1 / 20 + tiny)"
  using tiny_bounds by (intro neg_ln_ge; simp add: algebra_simps)

lemma ln_bounds_19_20: "ln (21 / 20) \<le> - ln (19 / 20 + tiny)" "ln (19 / 20 + tiny) \<le> 0"
  using tiny_bounds by (intro neg_ln_ge ln_below_one; simp add: algebra_simps)+

lemma ln_bound_2_21: "ln 10 \<le> - ln (2 / 21 + tiny)"
  using tiny_bounds by (intro neg_ln_ge; simp add: algebra_simps)

lemma ln_bounds_19_21: "ln (11 / 10) \<le> - ln (19 / 21 + tiny)" "ln (19 / 21 + tiny) \<le> 0"
  using tiny_bounds by (intro neg_ln_ge ln_below_one; simp add: algebra_simps)+

lemma example_min_before: "raw_dl (blocks 19 3) 19 < raw_dl (blocks 19 3) 18"
proof -
  have "ln (19::real) \<le> ln 72" by simp
  moreover have "ln (72::real) = ln 18 + ln 4" using ln_mult_pos [of 18 "4::real"] by simp
  ultimately have a: "ln (19::real) \<le> ln 18 + ln 4" by simp
  have b: "0 \<le> ln (3::real)" by simp
  show ?thesis
    unfolding raw18 raw19
    using a b ln_one_plus_tiny(1) ln_bounds_3_4(2) ln_bounds_1_4(2) by argo
qed

lemma example_min_after: "raw_dl (blocks 19 3) 19 \<le> raw_dl (blocks 19 3) 20"
proof -
  have a: "ln (3::real) \<le> ln 20" "0 \<le> ln (2::real)" "0 \<le> ln (19::real)" by simp_all
  show ?thesis
    unfolding raw19 raw20 using a ln_one_plus_tiny(1) ln_bound_1_20 ln_bounds_19_20(2) by argo
qed

lemma example_min_last: "raw_dl (blocks 19 3) 19 \<le> raw_dl (blocks 19 3) 21"
proof -
  have a: "ln (19::real) \<le> ln 21" "ln (3::real) \<le> ln 10" "0 \<le> ln (10::real)" by simp_all
  show ?thesis
    unfolding raw19 raw21 using a ln_one_plus_tiny(1) ln_bound_2_21 ln_bounds_19_21(2) by argo
qed

lemma example_products:
  "18 * ln (4 / 3 :: real) + 9 * ln 4 + 3 * ln 18 + 50 * ln (1001 / 1000)
   < 3 * ln 19 + ln 3 + 38 * ln (21 / 20) + ln 20 + ln 2 + 4 * ln 10 + 38 * ln (11 / 10) + ln 21"
proof -
  have l: "18 * ln (4 / 3 :: real) + 9 * ln 4 + 3 * ln 18 + 50 * ln (1001 / 1000)
        = ln ((4 / 3) ^ 18 * 4 ^ 9 * 18 ^ 3 * (1001 / 1000) ^ 50)"
    by (simp only: ln_mult_pos ln_realpow zero_less_power zero_less_numeral
          mult_pos_pos divide_pos_pos of_nat_numeral)
  have r: "3 * ln (19::real) + ln 3 + 38 * ln (21 / 20) + ln 20 + ln 2 + 4 * ln 10
             + 38 * ln (11 / 10) + ln 21
        = ln (19 ^ 3 * 3 * (21 / 20) ^ 38 * 20 * 2 * 10 ^ 4 * (11 / 10) ^ 38 * 21)"
    by (simp only: ln_mult_pos ln_realpow zero_less_power zero_less_numeral
          mult_pos_pos divide_pos_pos of_nat_numeral)
  have c: "((4 / 3) ^ 18 * 4 ^ 9 * 18 ^ 3 * (1001 / 1000) ^ 50 :: real)
         < 19 ^ 3 * 3 * (21 / 20) ^ 38 * 20 * 2 * 10 ^ 4 * (11 / 10) ^ 38 * 21"
    by (simp add: power_divide)
  show ?thesis unfolding l r
    by (subst ln_less_cancel_iff) (use c in \<open>simp_all only: zero_less_power zero_less_numeral
          mult_pos_pos divide_pos_pos\<close>)
qed

lemma example_means:
  "3 * raw_dl (blocks 19 3) 18
   < raw_dl (blocks 19 3) 19 + raw_dl (blocks 19 3) 20 + raw_dl (blocks 19 3) 21"
  unfolding raw18 raw19 raw20 raw21
  using example_products ln_one_plus_tiny ln_bounds_3_4(1) ln_bounds_1_4(1) ln_bound_1_20
    ln_bounds_19_20(1) ln_bound_2_21 ln_bounds_19_21(1)
  by argo

lemma smoothed_value_k1: "1 \<le> n \<Longrightarrow> smoothed_value ts 1 n = raw_dl ts n"
  by (cases n) simp_all

lemma example_window:
  "trailing 4 (smoothed_series ts 1 21) = map (raw_dl ts) [18, 19, 20, 21]"
proof -
  have "drop 17 [1..<22] = [18, 19, 20, 21::nat]" by (simp add: drop_upt upt_rec)
  then show ?thesis
    by (simp add: trailing_def smoothed_series_def drop_map smoothed_value_k1 del: upt_Suc)
qed

lemma interior_dip_4:
  assumes "b < a" "b \<le> c" "b \<le> d" "3 * a < b + c + d"
  shows "interior_dip [a, b, c, d]"
proof -
  have m: "Min (set [a, b, c, d]) = b" using assms(1-3) by (simp add: min_def)
  have p: "min_position [a, b, c, d] = 1"
    unfolding min_position_def m using assms(1) by simp
  show ?thesis unfolding interior_dip_def p using assms(4) by (simp add: window_mean_def)
qed

lemma example_dip: "interior_dip (trailing 4 (smoothed_series (blocks 19 3) 1 21))"
  unfolding example_window list.map
  by (rule interior_dip_4 [OF example_min_before example_min_after example_min_last
        example_means])

lemma scan_upto_early:
  assumes "scan_upto to_dt ts labels stride k m = Inr s" "m \<le> length ts - 1" "m \<le> 20"
  shows "regime_change_date s = None"
  using scan_upto_invariant [OF assms(1,2)] assms(3) by auto

lemma example_scan:
  assumes c: "change_point_at to_dt labels 21 = Inr c"
  shows "scan_upto to_dt (blocks 19 3) labels 2 1 21
           = Inr \<lparr>mdl = map Fin (smoothed_series (blocks 19 3) 1 21),
                  regime_change_date = Some c\<rparr>"
proof -
  let ?ts = "blocks 19 3"
  have len: "length ?ts = 22" by (simp add: length_blocks)
  obtain s0 where s0: "scan_upto to_dt ?ts labels 2 1 20 = Inr s0"
    using scan_upto_total [of 2 20 ?ts to_dt labels 1] by (auto simp: len)
  have md: "mdl s0 = map Fin (smoothed_series ?ts 1 20)"
    using scan_upto_invariant [OF s0] by (simp add: len)
  have cp: "regime_change_date s0 = None"
    using scan_upto_early [OF s0] by (simp add: len)
  have ne: "Suc 20 = 1 \<or> smoothed_series ?ts 1 20 \<noteq> []"
    using length_smoothed_series [of ?ts 1 20] by auto
  have n: "1 \<le> Suc 20" "Suc 20 < length ?ts" "0 < (2::int)" by (simp_all add: len)
  note step = scan_step_Fin [OF md n ne, of to_dt labels 1]
  have nx: "smoothed_series ?ts 1 20 @ [smoothed_next ?ts 1 (Suc 20) (smoothed_series ?ts 1 20)]
            = smoothed_series ?ts 1 (Suc 20)" by (rule smoothed_series_Suc)
  have dip: "interior_dip (trailing (nat (2 * 2)) (smoothed_series ?ts 1 (Suc 20)))"
    using example_dip by simp
  have st: "scan_step to_dt ?ts labels 2 1 (Suc 20) s0
           = Inr \<lparr>mdl = map Fin (smoothed_series ?ts 1 21), regime_change_date = Some c\<rparr>"
    unfolding step nx using dip cp c by simp
  have "(21::nat) = Suc 20" by simp
  then show ?thesis using st s0 by (simp only: scan_upto_Suc sum.case)
qed

section \<open>The segment likelihood: results\<close>

lemma heads_of_replicate:
  "heads_of (replicate n False) = 0" "heads_of (replicate n True) = n"
  by (simp_all add: heads_of_def)

text \<open>
  C4, as the claim has it: the estimator fails on an empty sequence. It does not: the mean
  of the empty sequence is \<open>NaN\<close>, the two counts are zero, and the function returns
  \<open>NaN\<close>.
\<close>

theorem log_likelihood_empty_is_nan: "log_likelihood [] = NaN"
  by (simp add: log_likelihood_def np_mean_def)

text \<open>
  C4, amended: on the empty sequence the estimator returns \<open>NaN\<close> without raising; on
  every non-empty binary sequence it returns the finite number
  \<open>heads * ln (p + 1e-20) + tails * ln (1 - p + 1e-20)\<close>.
\<close>

theorem log_likelihood_value:
  assumes "time_series \<noteq> []"
  shows "log_likelihood [] = NaN \<and> log_likelihood time_series = Fin (segment_ll time_series)"
  using assms by (simp add: log_likelihood_empty log_likelihood_nonempty)

theorem log_likelihood_value_witness:
  "[True, False] \<noteq> [] \<and> log_likelihood [] = NaN
   \<and> log_likelihood [True, False] = Fin (ln (1 / 2 + 1 / 10 ^ 20) + ln (1 - 1 / 2 + 1 / 10 ^ 20))"
  using log_likelihood_value [of "[True, False]"] by (simp add: segment_ll_def heads_of_def)

text \<open>
  C9: on a non-empty sequence of zeros only, and on one of ones only, the estimator returns
  a finite number. The constant keeps both arguments of the logarithm positive: the term
  of the absent outcome is \<open>0 * ln 1e-20\<close>, and the other is \<open>n * ln (1 + 1e-20)\<close>.
\<close>

theorem log_likelihood_constant:
  assumes "0 < n"
  shows "log_likelihood (replicate n False) = Fin (real n * ln (1 + 1 / 10 ^ 20))
       \<and> log_likelihood (replicate n True) = Fin (real n * ln (1 + 1 / 10 ^ 20))"
proof -
  have "replicate n False \<noteq> []" "replicate n True \<noteq> []" using assms by simp_all
  then show ?thesis using assms
    by (simp add: log_likelihood_nonempty segment_ll_def heads_of_replicate)
qed

theorem log_likelihood_constant_witness:
  "0 < (3::nat) \<and> log_likelihood [False, False, False] = Fin (3 * ln (1 + 1 / 10 ^ 20))
   \<and> log_likelihood [True, True, True] = Fin (3 * ln (1 + 1 / 10 ^ 20))"
  using log_likelihood_constant [of 3] by (simp add: numeral_3_eq_3)

section \<open>The result of a scan\<close>

text \<open>
  The function returns after the last split; what it returns is read off the final state.
\<close>

lemma length_scan_upto:
  assumes "scan_upto to_dt ts labels stride k (length ts - 1) = Inr s"
  shows "length (mdl s) = length ts - 1"
  using scan_upto_invariant [OF assms] by (simp add: length_smoothed_series)

lemma detect_error:
  "scan_upto to_dt ts labels stride k (length ts - 1) = Inl e
   \<Longrightarrow> detect_regime_change to_dt ts labels stride k = Inl e"
  unfolding detect_regime_change_def scan_loop_upto by simp

lemma detect_unlabelled:
  assumes "scan_upto to_dt ts None stride k (length ts - 1) = Inr s"
  shows "detect_regime_change to_dt ts None stride k
           = Inr (zip (map Idx [1..<length ts]) (mdl s), regime_change_date s)"
  using length_scan_upto [OF assms]
  unfolding detect_regime_change_def scan_loop_upto assms by (simp add: pd_Series_def)

lemma labels_slice: "drop 1 (py_slice_to (- 1) ls) = take (length ls - 2) (drop 1 ls)"
  by (simp add: py_slice_to_def drop_take nat_diff_distrib' numeral_2_eq_2)

lemma detect_labelled:
  assumes "scan_upto to_dt ts (Some ls) stride k (length ts - 1) = Inr s"
  shows "detect_regime_change to_dt ts (Some ls) stride k
           = (if length ts - 1 = length ls - 2
              then Inr (zip (map Lab (take (length ls - 2) (drop 1 ls))) (mdl s),
                        regime_change_date s)
              else Inl ValueError)"
  using length_scan_upto [OF assms]
  unfolding detect_regime_change_def scan_loop_upto assms labels_slice
  by (auto simp: pd_Series_def)

lemma change_point_at_labelled:
  "n < length ls \<Longrightarrow> \<forall>l\<in>set ls. to_dt l \<noteq> None
   \<Longrightarrow> \<exists>c. change_point_at to_dt (Some ls) n = Inr c"
  by (auto simp: change_point_at_def split: option.splits)

lemma detect_date:
  assumes "detect_regime_change to_dt ts labels stride k = Inr (series, cp)"
  shows "\<exists>s. scan_upto to_dt ts labels stride k (length ts - 1) = Inr s
           \<and> cp = regime_change_date s"
  using assms unfolding detect_regime_change_def scan_loop_upto
  by (auto split: sum.splits)

lemma detect_values:
  assumes "detect_regime_change to_dt ts labels stride k = Inr (series, cp)"
  shows "map snd series = map Fin (smoothed_series ts k (length ts - 1))"
proof -
  from assms obtain s keys where
    s: "scan_upto to_dt ts labels stride k (length ts - 1) = Inr s"
    and p: "pd_Series (mdl s) keys = Inr series"
    unfolding detect_regime_change_def scan_loop_upto
    by (auto split: sum.splits option.splits)
  from p have "map snd series = mdl s"
    by (auto simp: pd_Series_def split: if_splits)
  then show ?thesis using scan_upto_invariant [OF s order_refl] by simp
qed

lemma short_scan_returns:
  assumes "0 < stride"
  shows "\<exists>s. scan_upto to_dt ts None stride k (length ts - 1) = Inr s
           \<and> detect_regime_change to_dt ts None stride k
               = Inr (zip (map Idx [1..<length ts]) (mdl s), regime_change_date s)
           \<and> length (mdl s) = length ts - 1"
proof -
  obtain s where s: "scan_upto to_dt ts None stride k (length ts - 1) = Inr s"
    using scan_upto_total [where to_dt = to_dt and labels = None and k = k and ts = ts,
        OF assms order_refl]
    by (auto simp: change_point_at_def)
  then show ?thesis using detect_unlabelled [OF s] length_scan_upto [OF s] by blast
qed

lemma smoothed_series_nth:
  "1 \<le> n \<Longrightarrow> n \<le> m \<Longrightarrow> smoothed_series ts k m ! (n - 1) = smoothed_value ts k n"
  by (simp add: smoothed_series_def nth_map_upt del: upt_Suc)

lemma raw_mdl_formula:
  assumes "1 \<le> n" "n < length ts"
  shows "Fin (raw_dl ts n)
       = fadd (fsub (fneg (log_likelihood (take n ts))) (log_likelihood (drop n ts)))
              (fmul (Fin (1 / 2))
                 (fadd (np_log (Fin (real n))) (np_log (Fin (real (length ts - n))))))"
proof -
  have c: "real_of_int (int (length ts) - int n) = real (length ts - n)" using assms by simp
  have "raw_mdl ts n
       = fadd (fsub (fneg (log_likelihood (take n ts))) (log_likelihood (drop n ts)))
              (fmul (Fin (1 / 2))
                 (fadd (np_log (Fin (real n))) (np_log (Fin (real (length ts - n))))))"
    unfolding raw_mdl_def Let_def c by (rule refl)
  from trans [OF raw_mdl_Fin [OF assms, symmetric] this] show ?thesis .
qed

subsection \<open>The scan of nineteen zeros and three ones\<close>

text \<open>
  With \<open>stride = 2\<close> and \<open>k = 1\<close> the window at the split 21 holds the raw description
  lengths of the splits 18 to 21; its minimum is at the split 19, and the scan reports a change.
\<close>

lemma example_input: "replicate 19 False @ replicate 3 True = blocks 19 3"
  by (simp add: blocks_def)

lemma example_detect_unlabelled:
  "detect_regime_change to_dt (blocks 19 3) None 2 1
     = Inr (zip (map Idx [1..<22]) (map Fin (smoothed_series (blocks 19 3) 1 21)),
            Some (Idx 21))"
proof -
  have c: "change_point_at to_dt None 21 = Inr (Idx 21)" by (simp add: change_point_at_def)
  have "scan_upto to_dt (blocks 19 3) None 2 1 (length (blocks 19 3) - 1)
          = Inr \<lparr>mdl = map Fin (smoothed_series (blocks 19 3) 1 21),
                 regime_change_date = Some (Idx 21)\<rparr>"
    using example_scan [OF c] by (simp add: length_blocks)
  from detect_unlabelled [OF this] show ?thesis by (simp add: length_blocks)
qed


text \<open>
  A state whose window shows a dip at the split 22: the date is set when there is none yet,
  and kept when there is one.
\<close>

lemma lock_example_step:
  fixes s :: "nat scan_state"
  assumes "mdl s = [Fin 1, Fin 0, Fin 5]"
  shows "scan_loop (Some :: nat \<Rightarrow> nat option) (replicate 23 True) None 2 0 [22] s
     = Inr \<lparr>mdl = [Fin 1, Fin 0, Fin 5, Fin 5],
            regime_change_date =
              (if regime_change_date s = None then Some (Idx 22) else regime_change_date s)\<rparr>"
proof -
  let ?ts = "replicate 23 True"
  have md: "mdl s = map Fin [1, 0, 5]" using assms by simp
  have n: "1 \<le> (22::nat)" "22 < length ?ts" "0 < (2::int)" by simp_all
  have ne: "(22::nat) = 1 \<or> [1, 0, 5::real] \<noteq> []" by simp
  have nx: "smoothed_next ?ts 0 22 [1, 0, 5] = 5" by (simp add: smoothed_next_def)
  have w: "trailing (nat (2 * 2)) ([1, 0, 5] @ [5::real]) = [1, 0, 5, 5]"
    by (simp add: trailing_def)
  have dip: "interior_dip [1, 0, 5, 5::real]" by (rule interior_dip_4) simp_all
  show ?thesis
    unfolding scan_loop.simps scan_step_Fin [OF md n ne] nx w
    using dip by (simp add: change_point_at_def)
qed

section \<open>The detection rule\<close>

text \<open>
  The minimum the program finds is an element of the window, so its index is found, and
  the index is a position of the window.
\<close>

lemma py_min_from_in: "py_min_from m xs \<in> set (m # xs)"
  by (induction xs arbitrary: m) auto

lemma py_min_in: "py_min xs = Inr v \<Longrightarrow> v \<in> set xs"
  using py_min_from_in by (auto simp: py_min_def split: list.splits)

lemma py_min_nonempty: "xs \<noteq> [] \<Longrightarrow> \<exists>v. py_min xs = Inr v"
  by (cases xs) (simp_all add: py_min_def)

lemma py_index_less: "py_index xs v = Inr i \<Longrightarrow> i < length xs"
  by (induction xs arbitrary: i) (auto split: if_splits sum.splits)

text \<open>
  The source also tests \<open>min_ < 2 * stride\<close>. The window has at most \<open>2 * stride\<close>
  values, so the test holds at every position, the last one included.
\<close>

lemma edge_test:
  assumes "0 < stride" "py_index (detection_window stride m) v = Inr i"
  shows "int i < 2 * stride"
proof -
  have "i < length (trailing (nat (2 * stride)) m)"
    using py_index_less [OF assms(2)] assms(1) by (simp add: detection_window_pos)
  then have "i < nat (2 * stride)" by (simp add: length_trailing)
  then show ?thesis by linarith
qed

text \<open>
  C1, as the claim has it: with labels, the change point recorded at the split \<open>n\<close> is
  \<open>labels[n]\<close>. The program records \<open>pd.to_datetime(labels[n])\<close>: with a conversion
  that adds 1000, the scan of nineteen zeros and three ones with the labels 100 to 122
  records 1121 at the split 21, where the label is 121.
\<close>

theorem recorded_date_counterexample:
  "scan_upto (Some \<circ> (+) 1000) (replicate 19 False @ replicate 3 True) (Some [100..<123]) 2 1 21
     = Inr \<lparr>mdl = map Fin (smoothed_series (replicate 19 False @ replicate 3 True) 1 21),
            regime_change_date = Some (Lab 1121)\<rparr>
   \<and> [100..<123] ! 21 = (121::nat)"
proof -
  have "change_point_at (Some \<circ> (+) 1000) (Some [100..<123]) 21 = Inr (Lab (1121::nat))"
    by (simp add: change_point_at_def)
  from example_scan [OF this] show ?thesis unfolding example_input by simp
qed

text \<open>
  C1, amended: at a split \<open>n > 20\<close> reached with no change point recorded, the smoothed
  value is appended, the window is the last \<open>2 * stride\<close> smoothed values (fewer when
  there are not yet as many), and \<open>min_idx\<close> is the first position of its minimum.
  When \<open>min_idx\<close> lies strictly inside the window, at neither the first nor the last
  position, and \<open>np.mean\<close> of the values before it is strictly less than \<open>np.mean\<close> of
  the values from it onwards, the change point is recorded: the split \<open>n\<close>, or
  \<open>pd.to_datetime(labels[n])\<close> when labels were given, and the scan raises when that
  label is missing or unreadable. When \<open>min_idx\<close> is the first position, or the mean
  before it is not strictly less, no change point is recorded at \<open>n\<close>. A minimum at the
  last position whose means compare in that order is left open.
\<close>

theorem detection_rule:
  assumes "0 < stride" "20 < n" "n < length ts"
    and "scan_upto to_dt ts labels stride k (n - 1) = Inr s"
    and "regime_change_date s = None"
  shows "\<exists>m window lowest min_idx.
      smooth k n (raw_mdl ts n) (mdl s) = Inr m
    \<and> window = detection_window stride m
    \<and> window = trailing (nat (2 * stride)) m
    \<and> py_min window = Inr lowest
    \<and> py_index window lowest = Inr min_idx
    \<and> (0 < min_idx \<and> min_idx < length window - 1
         \<and> fless (np_mean (take min_idx window)) (np_mean (drop min_idx window))
        \<longrightarrow> scan_upto to_dt ts labels stride k n =
             (case labels of
                None \<Rightarrow> Inr \<lparr>mdl = m, regime_change_date = Some (Idx n)\<rparr>
              | Some ls \<Rightarrow>
                  (if n < length ls
                   then (case to_dt (ls ! n) of
                           None \<Rightarrow> Inl ConversionError
                         | Some d \<Rightarrow> Inr \<lparr>mdl = m, regime_change_date = Some (Lab d)\<rparr>)
                   else Inl IndexError)))
    \<and> (min_idx = 0 \<or> \<not> fless (np_mean (take min_idx window)) (np_mean (drop min_idx window))
        \<longrightarrow> scan_upto to_dt ts labels stride k n
              = Inr \<lparr>mdl = m, regime_change_date = None\<rparr>)"
proof -
  obtain p where p: "n = Suc p" using assms(2) by (cases n) auto
  have s: "scan_upto to_dt ts labels stride k p = Inr s" using assms(4) p by simp
  have le: "p \<le> length ts - 1" using assms(3) p by simp
  have "length (mdl s) = p"
    using scan_upto_invariant [OF s le] by (simp add: length_smoothed_series)
  then have ne: "mdl s \<noteq> []" using assms(2) p by auto
  have n1: "n \<noteq> 1" using assms(2) by simp
  define m where "m = mdl s @ [fadd (fmul (last (mdl s)) (Fin (1 - k))) (fmul (raw_mdl ts n) (Fin k))]"
  have sm: "smooth k n (raw_mdl ts n) (mdl s) = Inr m"
    using ne n1 by (simp add: smooth_def m_def)
  define window where "window = detection_window stride m"
  have tr: "window = trailing (nat (2 * stride)) m"
    unfolding window_def using assms(1) by (rule detection_window_pos)
  have "m \<noteq> []" by (simp add: m_def)
  then have wne: "window \<noteq> []" unfolding tr using assms(1) by (intro trailing_nonempty) auto
  from py_min_nonempty [OF wne] obtain lowest where lo: "py_min window = Inr lowest" ..
  from py_index_takeWhile [OF py_min_in [OF lo]] obtain min_idx where
    ix: "py_index window lowest = Inr min_idx" by blast
  have edge: "int min_idx < 2 * stride"
    using edge_test [OF assms(1)] ix unfolding window_def by blast
  have step: "scan_upto to_dt ts labels stride k n
      = (if 0 < min_idx \<and> fless (np_mean (take min_idx window)) (np_mean (drop min_idx window))
         then (case change_point_at to_dt labels n of
                 Inl e \<Rightarrow> Inl e
               | Inr c \<Rightarrow> Inr \<lparr>mdl = m, regime_change_date = Some c\<rparr>)
         else Inr \<lparr>mdl = m, regime_change_date = None\<rparr>)"
    unfolding p scan_upto_Suc s sum.case scan_step_def
    using sm lo ix edge assms(2,5) unfolding p window_def by (simp add: Let_def)
  show ?thesis
    apply (rule exI [of _ m], rule exI [of _ window], rule exI [of _ lowest],
        rule exI [of _ min_idx])
    using sm tr lo ix step
    by (auto simp: window_def change_point_at_def split: option.splits)
qed

text \<open>
  The rule at work: the split 21 of nineteen zeros and three ones is reached with no change
  point, the minimum of its window of four is at the second position with the means in
  order, and the change point 21 is recorded.
\<close>

theorem detection_rule_witness:
  "\<exists>s. scan_upto (Some :: nat \<Rightarrow> nat option) (replicate 19 False @ replicate 3 True) None 2 1 20
         = Inr s
     \<and> regime_change_date s = None
     \<and> scan_upto (Some :: nat \<Rightarrow> nat option) (replicate 19 False @ replicate 3 True) None 2 1 21
         = Inr \<lparr>mdl = map Fin (smoothed_series (replicate 19 False @ replicate 3 True) 1 21),
                regime_change_date = Some (Idx 21)\<rparr>"
proof -
  let ?ts = "blocks 19 3"
  let ?w = "trailing 4 (smoothed_series ?ts 1 21)"
  have len: "length ?ts = 22" by (simp add: length_blocks)
  have st: "0 < (2::int)" by simp
  have le: "(20::nat) \<le> length ?ts - 1" by (simp add: len)
  obtain s where s: "scan_upto (Some :: nat \<Rightarrow> nat option) ?ts None 2 1 20 = Inr s"
    using scan_upto_total [where to_dt = "Some :: nat \<Rightarrow> nat option" and labels = None
        and k = 1 and ts = ?ts, OF st le]
    by (auto simp: change_point_at_def)
  have cp: "regime_change_date s = None" using scan_upto_early [OF s le] by simp
  have md: "mdl s = map Fin (smoothed_series ?ts 1 20)"
    using scan_upto_invariant [OF s le] by simp
  have n: "(20::nat) < 21" "21 < length ?ts" by (simp_all add: len)
  have s1: "scan_upto (Some :: nat \<Rightarrow> nat option) ?ts None 2 1 (21 - 1) = Inr s"
    using s by simp
  from detection_rule [OF st n s1 cp] obtain m window lowest min_idx where a:
    "smooth 1 21 (raw_mdl ?ts 21) (mdl s) = Inr m
    \<and> window = detection_window 2 m
    \<and> window = trailing (nat (2 * 2)) m
    \<and> py_min window = Inr lowest
    \<and> py_index window lowest = Inr min_idx
    \<and> (0 < min_idx \<and> min_idx < length window - 1
         \<and> fless (np_mean (take min_idx window)) (np_mean (drop min_idx window))
        \<longrightarrow> scan_upto (Some :: nat \<Rightarrow> nat option) ?ts None 2 1 21 =
             (case None :: nat list option of
                None \<Rightarrow> Inr \<lparr>mdl = m, regime_change_date = Some (Idx 21)\<rparr>
              | Some ls \<Rightarrow>
                  (if 21 < length ls
                   then (case Some (ls ! 21) of
                           None \<Rightarrow> Inl ConversionError
                         | Some d \<Rightarrow> Inr \<lparr>mdl = m, regime_change_date = Some (Lab d)\<rparr>)
                   else Inl IndexError)))
    \<and> (min_idx = 0 \<or> \<not> fless (np_mean (take min_idx window)) (np_mean (drop min_idx window))
        \<longrightarrow> scan_upto (Some :: nat \<Rightarrow> nat option) ?ts None 2 1 21
              = Inr \<lparr>mdl = m, regime_change_date = None\<rparr>)"
    by blast
  have sm: "smooth 1 21 (raw_mdl ?ts 21) (mdl s) = Inr m"
    and tr: "window = trailing (nat (2 * 2)) m"
    and lo: "py_min window = Inr lowest"
    and ix: "py_index window lowest = Inr min_idx"
    using a by blast+
  have fire: "scan_upto (Some :: nat \<Rightarrow> nat option) ?ts None 2 1 21
             = Inr \<lparr>mdl = m, regime_change_date = Some (Idx 21)\<rparr>"
    if "0 < min_idx \<and> min_idx < length window - 1
         \<and> fless (np_mean (take min_idx window)) (np_mean (drop min_idx window))"
    using a that by simp
  have ne: "(21::nat) = 1 \<or> smoothed_series ?ts 1 20 \<noteq> []"
    using length_smoothed_series [of ?ts 1 20] by auto
  have r: "raw_mdl ?ts 21 = Fin (raw_dl ?ts 21)" by (rule raw_mdl_Fin) (simp_all add: len)
  have "smoothed_series ?ts 1 20 @ [smoothed_next ?ts 1 (Suc 20) (smoothed_series ?ts 1 20)]
          = smoothed_series ?ts 1 (Suc 20)" by (rule smoothed_series_Suc)
  then have m: "m = map Fin (smoothed_series ?ts 1 21)"
    using sm unfolding md r smooth_Fin [OF ne] by (simp add: smoothed_next_def)
  have w: "window = map Fin ?w" unfolding tr m by (simp add: trailing_map)
  have wne: "?w \<noteq> []" by (simp add: example_window)
  have wl: "int (length ?w) \<le> 2 * 2" by (simp add: example_window)
  note t = detection_test_Fin [OF wne wl]
  have lowest: "lowest = Fin (Min (set ?w))" using lo t(1) unfolding w by simp
  have idx: "min_idx = min_position ?w" using ix t(2) unfolding w lowest by simp
  have "0 < min_idx \<and> min_idx < length window - 1
         \<and> fless (np_mean (take min_idx window)) (np_mean (drop min_idx window))"
    using t(3) example_dip unfolding idx w by (simp add: interior_dip_def)
  from fire [OF this] show ?thesis unfolding example_input m using s cp by blast
qed

section \<open>The returned series\<close>

lemma labelled_mismatch:
  assumes "2 \<le> length ts" "length ls \<noteq> length ts + 1"
  shows "\<exists>e. detect_regime_change to_dt ts (Some ls) stride k = Inl e"
proof (cases "scan_upto to_dt ts (Some ls) stride k (length ts - 1)")
  case (Inl e)
  then show ?thesis using detect_error by blast
next
  case (Inr s)
  have "length ts - 1 \<noteq> length ls - 2" using assms by linarith
  then show ?thesis by (simp add: detect_labelled [OF Inr])
qed

text \<open>
  C2, as the claim has it: with labels, one per observation, the series has \<open>k - 1\<close>
  entries. It has none: the keys are \<open>labels[1:-1]\<close>, one fewer than the values, and the
  construction of the series raises ValueError.
\<close>

theorem series_length_labels_counterexample:
  "detect_regime_change (Some :: nat \<Rightarrow> nat option) [False, True] (Some [10, 20]) 6 (1 / 20)
     = Inl ValueError"
proof -
  have "\<exists>s. scan_upto (Some :: nat \<Rightarrow> nat option) [False, True] (Some [10, 20]) 6 (1 / 20)
               (length [False, True] - 1) = Inr s"
    by (rule scan_upto_total) simp_all
  then obtain s where
    "scan_upto (Some :: nat \<Rightarrow> nat option) [False, True] (Some [10, 20]) 6 (1 / 20)
               (length [False, True] - 1) = Inr s" ..
  from detect_labelled [OF this] show ?thesis by simp
qed

text \<open>
  C2, amended: for a positive stride, the call without labels returns a series of exactly
  \<open>k - 1\<close> entries keyed by the splits \<open>1, ..., k - 1\<close> in increasing order, and the call
  with \<open>k + 1\<close> readable labels returns a series of exactly \<open>k - 1\<close> entries keyed by
  \<open>labels[1], ..., labels[k - 1]\<close> in that order. With \<open>k\<close> labels and \<open>k \<ge> 2\<close> the call
  raises.
\<close>

theorem series_length:
  assumes "0 < stride"
  shows "(\<exists>series cp. detect_regime_change to_dt ts None stride k = Inr (series, cp)
            \<and> length series = length ts - 1
            \<and> map fst series = map Idx [1..<length ts])
       \<and> (\<forall>ls. length ls = length ts + 1 \<and> (\<forall>l\<in>set ls. to_dt l \<noteq> None) \<longrightarrow>
            (\<exists>series cp. detect_regime_change to_dt ts (Some ls) stride k = Inr (series, cp)
               \<and> length series = length ts - 1
               \<and> map fst series = map Lab (take (length ts - 1) (drop 1 ls))))
       \<and> (\<forall>ls. 2 \<le> length ts \<and> length ls = length ts \<longrightarrow>
            (\<exists>e. detect_regime_change to_dt ts (Some ls) stride k = Inl e))"
proof (intro conjI allI impI)
  obtain s where s: "scan_upto to_dt ts None stride k (length ts - 1) = Inr s"
    using scan_upto_total [where to_dt = to_dt and labels = None and k = k and ts = ts,
        OF assms order_refl]
    by (auto simp: change_point_at_def)
  show "\<exists>series cp. detect_regime_change to_dt ts None stride k = Inr (series, cp)
            \<and> length series = length ts - 1
            \<and> map fst series = map Idx [1..<length ts]"
    using length_scan_upto [OF s] by (simp add: detect_unlabelled [OF s])
next
  fix ls :: "'a list"
  assume ls: "length ls = length ts + 1 \<and> (\<forall>l\<in>set ls. to_dt l \<noteq> None)"
  have "\<exists>s. scan_upto to_dt ts (Some ls) stride k (length ts - 1) = Inr s"
  proof (rule scan_upto_total [where ts = ts, OF assms order_refl])
    fix n assume "20 < n" "n \<le> length ts - 1"
    then have "n < length ls" using ls by simp
    then show "\<exists>c. change_point_at to_dt (Some ls) n = Inr c"
      using ls by (intro change_point_at_labelled) auto
  qed
  then obtain s where s: "scan_upto to_dt ts (Some ls) stride k (length ts - 1) = Inr s" ..
  show "\<exists>series cp. detect_regime_change to_dt ts (Some ls) stride k = Inr (series, cp)
               \<and> length series = length ts - 1
               \<and> map fst series = map Lab (take (length ts - 1) (drop 1 ls))"
    using length_scan_upto [OF s] ls by (simp add: detect_labelled [OF s])
next
  fix ls :: "'a list"
  assume "2 \<le> length ts \<and> length ls = length ts"
  then show "\<exists>e. detect_regime_change to_dt ts (Some ls) stride k = Inl e"
    by (intro labelled_mismatch) simp_all
qed

theorem series_length_witness:
  "(\<exists>series cp. detect_regime_change (Some :: nat \<Rightarrow> nat option) [False, True, True] None 6 (1 / 20)
         = Inr (series, cp)
       \<and> length series = 2 \<and> map fst series = [Idx 1, Idx 2])
   \<and> (\<exists>series cp. detect_regime_change (Some :: nat \<Rightarrow> nat option) [False, True, True]
           (Some [10, 20, 30, 40]) 6 (1 / 20) = Inr (series, cp)
       \<and> length series = 2 \<and> map fst series = [Lab 20, Lab 30])
   \<and> (\<exists>e. detect_regime_change (Some :: nat \<Rightarrow> nat option) [False, True, True]
           (Some [10, 20, 30]) 6 (1 / 20) = Inl e)"
proof -
  have st: "0 < (6::int)" by simp
  note t = series_length [OF st, of "Some :: nat \<Rightarrow> nat option" "[False, True, True]" "1 / 20"]
  have a: "[1..<length [False, True, True]] = [1, 2]" by (simp add: upt_rec)
  show ?thesis
  proof (intro conjI)
    show "\<exists>series cp. detect_regime_change (Some :: nat \<Rightarrow> nat option) [False, True, True] None 6 (1 / 20)
         = Inr (series, cp) \<and> length series = 2 \<and> map fst series = [Idx 1, Idx 2]"
      using t [THEN conjunct1] unfolding a by (simp add: numeral_2_eq_2)
    show "\<exists>series cp. detect_regime_change (Some :: nat \<Rightarrow> nat option) [False, True, True]
           (Some [10, 20, 30, 40]) 6 (1 / 20) = Inr (series, cp)
       \<and> length series = 2 \<and> map fst series = [Lab 20, Lab 30]"
      using t [THEN conjunct2, THEN conjunct1, rule_format, of "[10, 20, 30, 40]"]
      by (simp add: numeral_2_eq_2)
    show "\<exists>e. detect_regime_change (Some :: nat \<Rightarrow> nat option) [False, True, True]
           (Some [10, 20, 30]) 6 (1 / 20) = Inl e"
      using t [THEN conjunct2, THEN conjunct2, rule_format, of "[10, 20, 30]"] by simp
  qed
qed



text \<open>
  C6: the smoothed values of a returned series are finite numbers \<open>rs\<close>, one per split;
  the value of the split \<open>n\<close> is the raw description length at \<open>n = 1\<close> and
  \<open>rs[n - 1] * (1 - k) + raw[n] * k\<close> after that, where the raw description length is
  \<open>- loglik (observations[0:n]) - loglik (observations[n:]) + 0.5 * (log n + log (k - n))\<close>
  as the program computes it.
\<close>

theorem smoothed_recurrence:
  assumes "detect_regime_change to_dt ts labels stride k = Inr (series, cp)"
    and "1 \<le> n" "n < length ts"
  shows "\<exists>rs. map snd series = map Fin rs \<and> length rs = length ts - 1
          \<and> rs ! (n - 1)
              = (if n = 1 then raw_dl ts n else rs ! (n - 2) * (1 - k) + raw_dl ts n * k)
          \<and> Fin (raw_dl ts n)
              = fadd (fsub (fneg (log_likelihood (take n ts))) (log_likelihood (drop n ts)))
                     (fmul (Fin (1 / 2))
                        (fadd (np_log (Fin (real n))) (np_log (Fin (real (length ts - n))))))"
proof -
  let ?rs = "smoothed_series ts k (length ts - 1)"
  have le: "n \<le> length ts - 1" using assms(3) by simp
  have a: "?rs ! (n - 1) = smoothed_value ts k n"
    using assms(2) le by (rule smoothed_series_nth)
  have b: "?rs ! (n - 1)
             = (if n = 1 then raw_dl ts n else ?rs ! (n - 2) * (1 - k) + raw_dl ts n * k)"
  proof (cases "n = 1")
    case True
    then show ?thesis unfolding a by simp
  next
    case False
    then obtain m where m: "n = Suc m" "1 \<le> m" using assms(2) by (cases n) auto
    have "?rs ! (m - 1) = smoothed_value ts k m"
      using m le by (intro smoothed_series_nth) auto
    then show ?thesis unfolding a using m by simp
  qed
  show ?thesis
    using detect_values [OF assms(1)] b raw_mdl_formula [OF assms(2,3)]
    by (intro exI [of _ ?rs]) (simp add: length_smoothed_series)
qed

theorem smoothed_recurrence_witness:
  "\<exists>series cp rs.
     detect_regime_change (Some :: nat \<Rightarrow> nat option) [False, True, True] None 6 (1 / 20)
       = Inr (series, cp)
     \<and> map snd series = map Fin rs \<and> length rs = 2
     \<and> rs ! 1 = rs ! 0 * (1 - 1 / 20) + raw_dl [False, True, True] 2 * (1 / 20)"
proof -
  let ?ts = "[False, True, True]"
  have "0 < (6::int)" by simp
  from short_scan_returns [OF this, of "Some :: nat \<Rightarrow> nat option" ?ts "1 / 20"]
  obtain series cp where
    d: "detect_regime_change (Some :: nat \<Rightarrow> nat option) ?ts None 6 (1 / 20)
       = Inr (series, cp)" by blast
  have h: "1 \<le> (2::nat)" "2 < length ?ts" by simp_all
  from smoothed_recurrence [OF d h] obtain rs where
    r: "map snd series = map Fin rs" "length rs = length ?ts - 1"
    "rs ! (2 - 1) = (if (2::nat) = 1 then raw_dl ?ts 2
                     else rs ! (2 - 2) * (1 - 1 / 20) + raw_dl ?ts 2 * (1 / 20))"
    by blast
  have l: "length rs = 2" using r(2) by simp
  have e: "rs ! 1 = rs ! 0 * (1 - 1 / 20) + raw_dl ?ts 2 * (1 / 20)"
    using r(3) by simp
  show ?thesis
    by (rule exI [of _ series], rule exI [of _ cp], rule exI [of _ rs]) (intro conjI d r(1) l e)
qed

section \<open>Input validation\<close>

text \<open>
  C5, as the claim has it: a sequence of fewer than two observations is rejected. It is
  not: the loop does not run, and the call returns an empty series and no change point.
\<close>

theorem no_validation_counterexample:
  "detect_regime_change (Some :: nat \<Rightarrow> nat option) [True] None 6 (1 / 20) = Inr ([], None)"
  by (simp add: detect_regime_change_def initial_state_def pd_Series_def)

text \<open>
  C5, amended: the scan checks none of its arguments. Without labels, a sequence of fewer
  than two observations gives an empty series and no change point. With labels and at
  least two observations, the call raises whenever the number of labels differs from
  \<open>k + 1\<close>: the series cannot be built from \<open>labels[1:-1]\<close>, or the label of the detected
  split is missing.
\<close>

theorem no_validation:
  "(length ts < 2 \<longrightarrow> detect_regime_change to_dt ts None stride k = Inr ([], None))
   \<and> (2 \<le> length ts \<and> length ls \<noteq> length ts + 1 \<longrightarrow>
        (\<exists>e. detect_regime_change to_dt ts (Some ls) stride k = Inl e))"
proof (intro conjI impI)
  assume "length ts < 2"
  then have e: "[1..<length ts] = []" by simp
  show "detect_regime_change to_dt ts None stride k = Inr ([], None)"
    unfolding detect_regime_change_def e by (simp add: initial_state_def pd_Series_def)
next
  assume a: "2 \<le> length ts \<and> length ls \<noteq> length ts + 1"
  show "\<exists>e. detect_regime_change to_dt ts (Some ls) stride k = Inl e"
  proof (cases "scan_upto to_dt ts (Some ls) stride k (length ts - 1)")
    case (Inl e)
    then show ?thesis using detect_error by blast
  next
    case (Inr s)
    have "length ts - 1 \<noteq> length ls - 2" using a by linarith
    then show ?thesis by (simp add: detect_labelled [OF Inr])
  qed
qed

theorem no_validation_witness:
  "length [True] < 2 \<and> 2 \<le> length [False, True] \<and> length [1, 2 :: nat] \<noteq> length [False, True] + 1
   \<and> detect_regime_change (Some :: nat \<Rightarrow> nat option) [True] None 6 (1 / 20) = Inr ([], None)
   \<and> (\<exists>e. detect_regime_change (Some :: nat \<Rightarrow> nat option) [False, True] (Some [1, 2]) 6 (1 / 20)
            = Inl e)"
  using no_validation [where ts = "[True]" and to_dt = "Some :: nat \<Rightarrow> nat option"
      and stride = 6 and k = "1 / 20", THEN conjunct1]
    no_validation [where ts = "[False, True]" and to_dt = "Some :: nat \<Rightarrow> nat option"
      and ls = "[1, 2]" and stride = 6 and k = "1 / 20", THEN conjunct2]
  by simp

section \<open>The change point\<close>

text \<open>
  C7: on at most 20 observations every call that returns reports no change point, and
  for a positive stride the call without labels does return, with the splits as keys; on
  \<open>[0, 1]\<close> the series has one entry.
\<close>

theorem short_series_no_change:
  assumes "length ts \<le> 20"
  shows "(\<forall>series cp. detect_regime_change to_dt ts labels stride k = Inr (series, cp)
            \<longrightarrow> cp = None)
       \<and> (0 < stride \<longrightarrow>
            (\<exists>series. detect_regime_change to_dt ts None stride k = Inr (series, None)
               \<and> map fst series = map Idx [1..<length ts]))"
proof (intro conjI allI impI)
  fix series cp
  assume "detect_regime_change to_dt ts labels stride k = Inr (series, cp)"
  then obtain s where s: "scan_upto to_dt ts labels stride k (length ts - 1) = Inr s"
    and cp: "cp = regime_change_date s"
    using detect_date by blast
  show "cp = None" unfolding cp using scan_upto_early [OF s] assms by simp
next
  assume st: "0 < stride"
  from short_scan_returns [OF st, of to_dt ts k] obtain s where
    s: "scan_upto to_dt ts None stride k (length ts - 1) = Inr s"
    and d: "detect_regime_change to_dt ts None stride k
               = Inr (zip (map Idx [1..<length ts]) (mdl s), regime_change_date s)"
    and l: "length (mdl s) = length ts - 1" by blast
  have "regime_change_date s = None" using scan_upto_early [OF s] assms by simp
  then show "\<exists>series. detect_regime_change to_dt ts None stride k = Inr (series, None)
               \<and> map fst series = map Idx [1..<length ts]"
    using d l by simp
qed

theorem short_series_no_change_witness:
  "length [False, True] \<le> 20
   \<and> (\<exists>v. detect_regime_change (Some :: nat \<Rightarrow> nat option) [False, True] None 6 (1 / 20)
            = Inr ([(Idx 1, v)], None))"
proof -
  have l: "length [False, True] \<le> 20" by simp
  from short_series_no_change [OF l, of "Some :: nat \<Rightarrow> nat option" None 6 "1 / 20",
      THEN conjunct2]
  obtain series where
    d: "detect_regime_change (Some :: nat \<Rightarrow> nat option) [False, True] None 6 (1 / 20)
          = Inr (series, None)" and n: "map fst series = [Idx 1]"
    by auto
  from n obtain v where "series = [(Idx 1, v)]" by (cases series) auto
  then show ?thesis using d l by blast
qed

text \<open>
  C8: once a change point is recorded, no later split of the scan changes it.
\<close>

theorem change_point_locked:
  assumes "scan_loop to_dt ts labels stride k ns s = Inr s'"
    and "regime_change_date s = Some c"
  shows "regime_change_date s' = Some c"
  using assms
proof (induction ns arbitrary: s)
  case Nil
  then show ?case by simp
next
  case (Cons n ns)
  from Cons.prems(1) obtain s1 where
    st: "scan_step to_dt ts labels stride k n s = Inr s1"
    and rest: "scan_loop to_dt ts labels stride k ns s1 = Inr s'"
    by (auto split: sum.splits)
  have "regime_change_date s1 = Some c"
    using scan_step_date [OF st] Cons.prems(2) by auto
  then show ?case by (rule Cons.IH [OF rest])
qed

text \<open>
  The window \<open>[1, 0, 5, 5]\<close> at the split 22 has the dip: it sets the change point 22
  when there is none, and leaves the change point 21 in place.
\<close>

theorem change_point_locked_witness:
  "scan_loop (Some :: nat \<Rightarrow> nat option) (replicate 23 True) None 2 0 [22]
       \<lparr>mdl = [Fin 1, Fin 0, Fin 5], regime_change_date = None\<rparr>
     = Inr \<lparr>mdl = [Fin 1, Fin 0, Fin 5, Fin 5], regime_change_date = Some (Idx 22)\<rparr>
   \<and> scan_loop (Some :: nat \<Rightarrow> nat option) (replicate 23 True) None 2 0 [22]
       \<lparr>mdl = [Fin 1, Fin 0, Fin 5], regime_change_date = Some (Idx 21)\<rparr>
     = Inr \<lparr>mdl = [Fin 1, Fin 0, Fin 5, Fin 5], regime_change_date = Some (Idx 21)\<rparr>"
proof -
  let ?s = "\<lparr>mdl = [Fin 1, Fin 0, Fin 5], regime_change_date = Some (Idx 21)\<rparr> :: nat scan_state"
  obtain s' where s': "scan_loop (Some :: nat \<Rightarrow> nat option) (replicate 23 True) None 2 0 [22] ?s
      = Inr s'" and m: "mdl s' = [Fin 1, Fin 0, Fin 5, Fin 5]"
    using lock_example_step [of ?s] by simp
  have "regime_change_date s' = Some (Idx 21)"
    by (rule change_point_locked [OF s']) simp
  then have "s' = \<lparr>mdl = [Fin 1, Fin 0, Fin 5, Fin 5], regime_change_date = Some (Idx 21)\<rparr>"
    using m by simp
  then show ?thesis using s' lock_example_step [of "\<lparr>mdl = [Fin 1, Fin 0, Fin 5], regime_change_date = None\<rparr>"]
    by simp
qed

text \<open>
  C10: a change point returned by a call without labels is a split index \<open>n\<close> with
  \<open>21 \<le> n \<le> k - 1\<close>; there are then at least 22 observations.
\<close>

theorem change_point_range:
  assumes "detect_regime_change to_dt ts None stride k = Inr (series, Some c)"
  shows "\<exists>n. c = Idx n \<and> 21 \<le> n \<and> n \<le> length ts - 1 \<and> 22 \<le> length ts"
proof -
  from detect_date [OF assms] obtain s where
    s: "scan_upto to_dt ts None stride k (length ts - 1) = Inr s"
    and cp: "regime_change_date s = Some c" by auto
  from scan_upto_invariant [OF s order_refl] cp obtain n where
    n: "20 < n" "n \<le> length ts - 1" and c: "change_point_at to_dt None n = Inr c" by auto
  from c have "c = Idx n" by (simp add: change_point_at_def)
  then show ?thesis using n by (intro exI [of _ n]) auto
qed

theorem change_point_range_witness:
  "\<exists>series n. detect_regime_change (Some :: nat \<Rightarrow> nat option)
       (replicate 19 False @ replicate 3 True) None 2 1 = Inr (series, Some (Idx n))
     \<and> 21 \<le> n \<and> n \<le> length (replicate 19 False @ replicate 3 True) - 1"
proof -
  note e = example_detect_unlabelled [of "Some :: nat \<Rightarrow> nat option"]
  from change_point_range [OF e] have "21 \<le> (21::nat) \<and> 21 \<le> length (blocks 19 3) - 1"
    by auto
  then show ?thesis unfolding example_input using e by blast
qed

end
